theory Spec2Isabelle
  imports Main "HOL-Library.Word"
begin

unbundle bit_operations_syntax

section \<open>Power-of-two rounding (circular\_buffer.hh)\<close>

text \<open>
  \<^verbatim>\<open>std::size_t\<close> is the 64-bit unsigned type of the build targets, so sizes and head
  indices are \<open>64 word\<close>: addition, subtraction and multiplication wrap modulo \<open>2 ^ 64\<close>.
\<close>

type_synonym size_t = "64 word"

text \<open>
  \<^verbatim>\<open>constexpr bool is_pow2(std::size_t z)\<close>: the test \<^verbatim>\<open>(z & (z - 1U)) == 0\<close>,
  guarded by \<^verbatim>\<open>z > 0\<close>.
\<close>

definition is_pow2 :: "size_t \<Rightarrow> bool" where
  "is_pow2 z = (if z > 0 then (z AND (z - 1)) = 0 else False)"

text \<open>
  \<^verbatim>\<open>std::countl_zero\<close> of the C++20 standard library: the number of consecutive zero
  bits starting from the most significant one. \<open>clz_scan n z\<close> scans the bits
  \<open>n - 1, n - 2, \<dots>, 0\<close> and stops at the first one that is set.
\<close>

primrec clz_scan :: "nat \<Rightarrow> size_t \<Rightarrow> nat" where
  "clz_scan 0 z = 0"
| "clz_scan (Suc n) z = (if bit z n then 0 else Suc (clz_scan n z))"

definition countl_zero :: "size_t \<Rightarrow> nat" where
  "countl_zero z = clz_scan 64 z"

text \<open>
  \<^verbatim>\<open>constexpr std::size_t next_pow2(std::size_t z)\<close>, in the branch the build selects
  (\<^verbatim>\<open>__cplusplus >= 202002L\<close>, the project requires C++20): \<^verbatim>\<open>n_bits\<close> is 64,
  \<^verbatim>\<open>lg2 = (n_bits - 1U) - std::countl_zero(z)\<close> and the result is
  \<^verbatim>\<open>std::size_t(1U) << (lg2 + 1)\<close>. The shift is the shift of 64-bit machine
  arithmetic, \<open>push_bit\<close> on \<open>64 word\<close>, which is multiplication by \<open>2 ^ (lg2 + 1)\<close>
  modulo \<open>2 ^ 64\<close>; for \<open>lg2 = 63\<close> the C++ standard leaves the shift undefined and
  the word model gives 0.
\<close>

definition next_pow2 :: "size_t \<Rightarrow> size_t" where
  "next_pow2 z =
     (if z \<le> 2 then 2
      else if is_pow2 z then z
      else (let n_bits = 64;
                lg2 = (n_bits - 1) - countl_zero z
            in push_bit (lg2 + 1) 1))"

text \<open>
  The position of the highest set bit of a non-zero word, the quantity the code calls
  \<^verbatim>\<open>lg2\<close>.
\<close>

definition top_bit :: "size_t \<Rightarrow> nat" where
  "top_bit z = 63 - countl_zero z"

section \<open>The circular buffer (circular\_buffer.hh)\<close>

text \<open>
  \<^verbatim>\<open>class CircularBuffer\<close> holds the storage vector \<^verbatim>\<open>buffer_\<close> and the two atomic
  head indices \<^verbatim>\<open>read_head_\<close> and \<^verbatim>\<open>write_head_\<close>. Each member function is modelled as
  one atomic step on this record; the interleaving of the two threads inside a member
  function is not modelled.
\<close>

record 'a CircularBuffer =
  buffer :: "'a list"
  read_head :: size_t
  write_head :: size_t

text \<open>
  \<^verbatim>\<open>CircularBuffer(std::size_t capacity)\<close>: the vector is created with
  \<^verbatim>\<open>next_pow2(capacity)\<close> value-initialised elements, both heads are 0.
\<close>

definition CircularBuffer_new :: "size_t \<Rightarrow> ('a::zero) CircularBuffer" where
  "CircularBuffer_new requested =
     \<lparr>buffer = replicate (unat (next_pow2 requested)) 0, read_head = 0, write_head = 0\<rparr>"

text \<open>
  \<^verbatim>\<open>CircularBuffer() = default\<close>: empty storage and both heads 0. No code of the
  repository uses a buffer built this way: both processes construct their ring buffer
  with a capacity.
\<close>

definition CircularBuffer_default :: "'a CircularBuffer" where
  "CircularBuffer_default = \<lparr>buffer = [], read_head = 0, write_head = 0\<rparr>"

text \<open>\<^verbatim>\<open>capacity()\<close> is \<^verbatim>\<open>buffer_.size()\<close>.\<close>

definition capacity :: "'a CircularBuffer \<Rightarrow> size_t" where
  "capacity cb = of_nat (length (buffer cb))"

text \<open>\<^verbatim>\<open>resize(new_size)\<close> resizes the vector only; the heads keep their values.\<close>

definition resize :: "('a::zero) CircularBuffer \<Rightarrow> size_t \<Rightarrow> 'a CircularBuffer" where
  "resize cb new_size =
     (let n = unat (next_pow2 new_size)
      in cb\<lparr>buffer := take n (buffer cb) @ replicate (n - length (buffer cb)) 0\<rparr>)"

text \<open>
  \<^verbatim>\<open>compute_read_available\<close>. Both \<^verbatim>\<open>assert\<close>s are branches of the model: a failed
  assertion aborts the program, which is the result \<open>None\<close>.
\<close>

definition compute_read_available :: "size_t \<Rightarrow> size_t \<Rightarrow> size_t \<Rightarrow> size_t option" where
  "compute_read_available rd_head wr_head cap =
     (if \<not> is_pow2 cap then None
      else let mask = cap - 1;
               read_available =
                 (if wr_head > rd_head then wr_head - rd_head
                  else (cap - wr_head + rd_head) AND mask)
           in if read_available < cap then Some read_available else None)"

definition compute_write_available :: "size_t \<Rightarrow> size_t \<Rightarrow> size_t \<Rightarrow> size_t option" where
  "compute_write_available rd_head wr_head cap =
     (case compute_read_available rd_head wr_head cap of
        None \<Rightarrow> None
      | Some read_available \<Rightarrow> Some (cap - read_available - 1))"

definition get_read_available :: "'a CircularBuffer \<Rightarrow> size_t option" where
  "get_read_available cb = compute_read_available (read_head cb) (write_head cb) (capacity cb)"

definition get_write_available :: "'a CircularBuffer \<Rightarrow> size_t option" where
  "get_write_available cb = compute_write_available (read_head cb) (write_head cb) (capacity cb)"

text \<open>
  \<^verbatim>\<open>std::copy(first, last, d_first)\<close> between two arrays: \<open>std_copy src first final dst pos\<close>
  copies the elements \<open>first, \<dots>, final - 1\<close> of \<open>src\<close> to the positions
  \<open>pos, pos + 1, \<dots>\<close> of \<open>dst\<close>. A range that leaves either array is undefined behaviour
  in C++ and \<open>None\<close> here.
\<close>

definition std_copy :: "'a list \<Rightarrow> nat \<Rightarrow> nat \<Rightarrow> 'a list \<Rightarrow> nat \<Rightarrow> 'a list option" where
  "std_copy src first final dst pos =
     (if first \<le> final \<and> final \<le> length src \<and> pos + (final - first) \<le> length dst
      then Some (take pos dst @ take (final - first) (drop first src)
                 @ drop (pos + (final - first)) dst)
      else None)"

text \<open>
  \<^verbatim>\<open>dequeue(DataType *dst, std::size_t size)\<close>. \<open>dst\<close> is the array the pointer refers
  to; the result is the updated buffer object, the updated array and the returned count.
\<close>

definition dequeue ::
  "'a CircularBuffer \<Rightarrow> 'a list \<Rightarrow> size_t \<Rightarrow> ('a CircularBuffer \<times> 'a list \<times> size_t) option" where
  "dequeue cb dst sz =
     (let read_start = read_head cb;
          write_start = write_head cb;
          ring_size = capacity cb;
          ring_mask = ring_size - 1
      in case compute_read_available read_start write_start ring_size of
           None \<Rightarrow> None
         | Some read_available \<Rightarrow>
             let read_size = min sz read_available;
                 read_end = read_start + read_size;
                 cnt_hi = ring_size - read_start;
                 cnt_lo = read_end AND ring_mask
             in case (if read_end > ring_size
                      then (case std_copy (buffer cb) (unat read_start) (length (buffer cb)) dst 0 of
                              None \<Rightarrow> None
                            | Some d1 \<Rightarrow> std_copy (buffer cb) 0 (unat cnt_lo) d1 (unat cnt_hi))
                      else std_copy (buffer cb) (unat read_start)
                             (unat read_start + unat read_size) dst 0) of
                  None \<Rightarrow> None
                | Some dst' \<Rightarrow> Some (cb\<lparr>read_head := cnt_lo\<rparr>, dst', read_size))"

text \<open>
  \<^verbatim>\<open>enqueue(DataType const *src, std::size_t size)\<close>. The result is the updated buffer
  object and the returned count.
\<close>

definition enqueue ::
  "'a CircularBuffer \<Rightarrow> 'a list \<Rightarrow> size_t \<Rightarrow> ('a CircularBuffer \<times> size_t) option" where
  "enqueue cb src sz =
     (let read_start = read_head cb;
          write_start = write_head cb;
          ring_size = capacity cb;
          ring_mask = ring_size - 1
      in case compute_write_available read_start write_start ring_size of
           None \<Rightarrow> None
         | Some write_available \<Rightarrow>
             let write_size = min sz write_available;
                 write_end = write_start + write_size;
                 cnt_hi = ring_size - write_start;
                 cnt_lo = write_end AND ring_mask
             in case (if write_end > ring_size
                      then (case std_copy src 0 (unat cnt_hi) (buffer cb) (unat write_start) of
                              None \<Rightarrow> None
                            | Some b1 \<Rightarrow> std_copy src (unat cnt_hi) (unat write_size) b1 0)
                      else std_copy src 0 (unat write_size) (buffer cb) (unat write_start)) of
                  None \<Rightarrow> None
                | Some buf \<Rightarrow> Some (cb\<lparr>buffer := buf, write_head := cnt_lo\<rparr>, write_size))"

text \<open>
  The states a buffer object is in between calls: the storage has a power-of-two size
  and both heads are indices into it.
\<close>

definition wf_buffer :: "'a CircularBuffer \<Rightarrow> bool" where
  "wf_buffer cb \<longleftrightarrow>
     length (buffer cb) < 2 ^ 64 \<and> is_pow2 (capacity cb) \<and>
     read_head cb < capacity cb \<and> write_head cb < capacity cb"

text \<open>
  A sequence of calls on one buffer object. \<open>Enq src n\<close> is \<^verbatim>\<open>enqueue(src, n)\<close>,
  \<open>Deq dst n\<close> is \<^verbatim>\<open>dequeue(dst, n)\<close>; \<open>run_ops\<close> performs them in order and is \<open>None\<close> as
  soon as one call has no defined result.
\<close>

datatype 'a buffer_op = Enq "'a list" size_t | Deq "'a list" size_t

fun op_ok :: "'a buffer_op \<Rightarrow> bool" where
  "op_ok (Enq src n) = (unat n \<le> length src)"
| "op_ok (Deq dst n) = (unat n \<le> length dst)"

fun run_ops :: "'a CircularBuffer \<Rightarrow> 'a buffer_op list \<Rightarrow> 'a CircularBuffer option" where
  "run_ops cb [] = Some cb"
| "run_ops cb (Enq src n # ops) =
     (case enqueue cb src n of None \<Rightarrow> None | Some (cb', k) \<Rightarrow> run_ops cb' ops)"
| "run_ops cb (Deq dst n # ops) =
     (case dequeue cb dst n of None \<Rightarrow> None | Some (cb', out, k) \<Rightarrow> run_ops cb' ops)"

section \<open>The streaming processes (play\_audio\_file.cc, record\_audio\_file.cc)\<close>

text \<open>
  \<^verbatim>\<open>class PlaybackProcess\<close> and \<^verbatim>\<open>class RecordProcess\<close> have the same data members: the
  file handle \<^verbatim>\<open>file_\<close>, of which the code only reads the channel count, the ring buffer
  \<^verbatim>\<open>circ_buffer_\<close>, the staging buffer \<^verbatim>\<open>file_io_buffer_\<close> and the counter \<^verbatim>\<open>io_counter_\<close>.
  The mutex and the condition variable carry no data: whether \<^verbatim>\<open>try_lock()\<close> succeeds is
  an argument of the callbacks, and a wait on the condition variable is an event in the
  trace of the IO thread. Console output and the counters that only feed it are left out.
  \<^verbatim>\<open>sf_count_t\<close> values (frame counts, the staging buffer's length) are \<open>int\<close>: they are
  bounded by the length of the staging buffer and never overflow.
\<close>

record 'a Process =
  file_channels :: int
  circ_buffer :: "'a CircularBuffer"
  file_io_buffer :: "'a list"
  io_counter :: size_t

definition BUFFER_FACTOR :: size_t where
  "BUFFER_FACTOR = 4"

text \<open>
  \<^verbatim>\<open>std::fill\<close> over \<^verbatim>\<open>std::span(output, data_needed)\<close>: the first \<open>n\<close> elements of the
  array are overwritten; \<open>None\<close> when the array is shorter than that.
\<close>

definition std_fill :: "'a list \<Rightarrow> nat \<Rightarrow> 'a \<Rightarrow> 'a list option" where
  "std_fill dst n v = (if n \<le> length dst then Some (replicate n v @ drop n dst) else None)"

text \<open>
  \<^verbatim>\<open>PlaybackProcess::read_frames(float *output, std::size_t frames)\<close>, the playback
  callback. The result is the updated process, the updated output array and whether the
  IO thread was notified.
\<close>

definition read_frames ::
  "('a::zero) Process \<Rightarrow> bool \<Rightarrow> 'a list \<Rightarrow> size_t \<Rightarrow> ('a Process \<times> 'a list \<times> bool) option" where
  "read_frames p try_lock output frames =
     (let channels = (word_of_int (file_channels p) :: size_t)
      in case get_read_available (circ_buffer p) of
           None \<Rightarrow> None
         | Some read_available \<Rightarrow>
             let data_needed = frames * channels
             in case (if read_available > data_needed
                      then (case dequeue (circ_buffer p) output data_needed of
                              None \<Rightarrow> None
                            | Some (cb, out, k) \<Rightarrow> Some (cb, out))
                      else (case std_fill output (unat data_needed) 0 of
                              None \<Rightarrow> None
                            | Some out \<Rightarrow> Some (circ_buffer p, out))) of
                  None \<Rightarrow> None
                | Some (cb, out) \<Rightarrow>
                    if io_counter p \<ge> BUFFER_FACTOR * 3 div 4 \<and> try_lock
                    then Some (p\<lparr>circ_buffer := cb, io_counter := 0\<rparr>, out, True)
                    else Some (p\<lparr>circ_buffer := cb, io_counter := io_counter p + 1\<rparr>,
                               out, False))"

text \<open>
  \<^verbatim>\<open>RecordProcess::write_frames(float const *input, std::size_t frames)\<close>, the capture
  callback.
\<close>

definition write_frames ::
  "'a Process \<Rightarrow> bool \<Rightarrow> 'a list \<Rightarrow> size_t \<Rightarrow> ('a Process \<times> bool) option" where
  "write_frames p try_lock inp frames =
     (let channels = (word_of_int (file_channels p) :: size_t)
      in case enqueue (circ_buffer p) inp (frames * channels) of
           None \<Rightarrow> None
         | Some (cb, k) \<Rightarrow>
             if io_counter p \<ge> BUFFER_FACTOR \<and> try_lock
             then Some (p\<lparr>circ_buffer := cb, io_counter := 0\<rparr>, True)
             else Some (p\<lparr>circ_buffer := cb, io_counter := io_counter p + 1\<rparr>, False))"

text \<open>
  The IO loops run against an environment: the audio thread, which calls the callback,
  and the file library. One \<open>io_step\<close> is what the environment does around one iteration
  of an IO loop: \<open>rt_calls\<close> are the callback invocations that complete before the
  iteration reads the availability (for each, whether its \<^verbatim>\<open>try_lock()\<close> succeeds, the
  hardware buffer and the frame count); \<open>file_count\<close> is the value that \<^verbatim>\<open>writef\<close> or
  \<^verbatim>\<open>readf\<close> returns if the iteration calls it; \<open>file_data\<close> is the staging buffer as
  \<^verbatim>\<open>readf\<close> leaves it. The interleaving of the two threads inside one iteration is not
  modelled.
\<close>

record 'a io_step =
  rt_calls :: "(bool \<times> 'a list \<times> size_t) list"
  file_count :: int
  file_data :: "'a list"

fun run_write_frames :: "'a Process \<Rightarrow> (bool \<times> 'a list \<times> size_t) list \<Rightarrow> 'a Process option" where
  "run_write_frames p [] = Some p"
| "run_write_frames p ((try_lock, inp, frames) # calls) =
     (case write_frames p try_lock inp frames of
        None \<Rightarrow> None
      | Some (p', notified) \<Rightarrow> run_write_frames p' calls)"

fun run_read_frames ::
  "('a::zero) Process \<Rightarrow> (bool \<times> 'a list \<times> size_t) list \<Rightarrow> 'a Process option" where
  "run_read_frames p [] = Some p"
| "run_read_frames p ((try_lock, output, frames) # calls) =
     (case read_frames p try_lock output frames of
        None \<Rightarrow> None
      | Some (p', out, notified) \<Rightarrow> run_read_frames p' calls)"

text \<open>
  What the IO thread does, in order: it reads the availability, dequeues into or enqueues
  from the staging buffer (requested and returned count), calls \<^verbatim>\<open>writef\<close> or \<^verbatim>\<open>readf\<close>
  (requested and transferred frames), and waits on the condition variable.
\<close>

datatype io_event =
  Check_Available size_t
| Dequeued size_t size_t
| Enqueued size_t size_t
| File_Write int int
| File_Read int int
| Wait_Notified

text \<open>
  A loop has left its \<^verbatim>\<open>for (;;)\<close> (\<open>Loop_Exited\<close>), is still inside it when the
  environment's steps are used up (\<open>Still_Running\<close>), or the program had no defined
  behaviour (\<open>Aborted\<close>: a failed assertion, an out-of-range copy, a division by zero).
\<close>

datatype loop_status = Still_Running | Loop_Exited | Aborted

text \<open>Division of \<^verbatim>\<open>sf_count_t\<close> values truncates towards zero.\<close>

definition cxx_div :: "int \<Rightarrow> int \<Rightarrow> int" where
  "cxx_div a b = (if (a < 0) = (b < 0) then \<bar>a\<bar> div \<bar>b\<bar> else - (\<bar>a\<bar> div \<bar>b\<bar>))"

text \<open>
  The \<^verbatim>\<open>for (;;)\<close> loop of \<^verbatim>\<open>RecordProcess::start\<close>. There is no wait inside the loop:
  \<^verbatim>\<open>data_ready_.wait(lock)\<close> stands after its closing brace.
\<close>

fun record_loop ::
  "int \<Rightarrow> int \<Rightarrow> 'a Process \<Rightarrow> 'a io_step list \<Rightarrow> io_event list \<times> loop_status \<times> 'a Process" where
  "record_loop buffer_len frames p [] = ([], Still_Running, p)"
| "record_loop buffer_len frames p (e # es) =
     (case run_write_frames p (rt_calls e) of
        None \<Rightarrow> ([], Aborted, p)
      | Some p1 \<Rightarrow>
          (case get_read_available (circ_buffer p1) of
             None \<Rightarrow> ([], Aborted, p1)
           | Some read_available \<Rightarrow>
               if read_available > word_of_int buffer_len
               then (case dequeue (circ_buffer p1) (file_io_buffer p1) (word_of_int buffer_len) of
                       None \<Rightarrow> ([Check_Available read_available], Aborted, p1)
                     | Some (cb, buf, k) \<Rightarrow>
                         let p2 = p1\<lparr>circ_buffer := cb, file_io_buffer := buf\<rparr>;
                             n_written = file_count e;
                             evs = [Check_Available read_available,
                                    Dequeued (word_of_int buffer_len) k,
                                    File_Write frames n_written]
                         in if n_written < frames then (evs, Loop_Exited, p2)
                            else (case record_loop buffer_len frames p2 es of
                                    (tr, st, p3) \<Rightarrow> (evs @ tr, st, p3)))
               else (case record_loop buffer_len frames p1 es of
                       (tr, st, p3) \<Rightarrow> (Check_Available read_available # tr, st, p3))))"

text \<open>
  \<^verbatim>\<open>RecordProcess::start\<close>: the locals, the loop, and the wait after the loop.
\<close>

definition record_start ::
  "'a Process \<Rightarrow> 'a io_step list \<Rightarrow> io_event list \<times> loop_status \<times> 'a Process" where
  "record_start p es =
     (let buffer_len = int (length (file_io_buffer p));
          channels = file_channels p
      in if channels = 0 then ([], Aborted, p)
         else let frames = cxx_div buffer_len channels
              in case record_loop buffer_len frames p es of
                   (tr, Loop_Exited, p') \<Rightarrow> (tr @ [Wait_Notified], Loop_Exited, p')
                 | (tr, st, p') \<Rightarrow> (tr, st, p'))"

text \<open>
  The \<^verbatim>\<open>for (;;)\<close> loop of \<^verbatim>\<open>PlaybackProcess::start\<close>: every iteration that does not
  break ends with \<^verbatim>\<open>request_data_.wait(lock)\<close>.
\<close>

fun playback_loop ::
  "int \<Rightarrow> int \<Rightarrow> int \<Rightarrow> ('a::zero) Process \<Rightarrow> 'a io_step list \<Rightarrow>
   io_event list \<times> loop_status \<times> 'a Process" where
  "playback_loop buffer_len channels frames p [] = ([], Still_Running, p)"
| "playback_loop buffer_len channels frames p (e # es) =
     (case run_read_frames p (rt_calls e) of
        None \<Rightarrow> ([], Aborted, p)
      | Some p1 \<Rightarrow>
          (case get_write_available (circ_buffer p1) of
             None \<Rightarrow> ([], Aborted, p1)
           | Some wa \<Rightarrow>
               let write_available = sint wa
               in if write_available > buffer_len
                  then (let n_read = file_count e;
                            p2 = p1\<lparr>file_io_buffer := file_data e\<rparr>;
                            read_len = n_read * channels
                        in case enqueue (circ_buffer p2) (file_io_buffer p2)
                                  (word_of_int read_len) of
                             None \<Rightarrow>
                               ([Check_Available wa, File_Read frames n_read], Aborted, p2)
                           | Some (cb, k) \<Rightarrow>
                               let p3 = p2\<lparr>circ_buffer := cb\<rparr>;
                                   evs = [Check_Available wa, File_Read frames n_read,
                                          Enqueued (word_of_int read_len) k]
                               in if n_read < frames then (evs, Loop_Exited, p3)
                                  else (case playback_loop buffer_len channels frames p3 es of
                                          (tr, st, p4) \<Rightarrow>
                                            (evs @ Wait_Notified # tr, st, p4)))
                  else (case playback_loop buffer_len channels frames p1 es of
                          (tr, st, p4) \<Rightarrow>
                            (Check_Available wa # Wait_Notified # tr, st, p4))))"

definition playback_start ::
  "('a::zero) Process \<Rightarrow> 'a io_step list \<Rightarrow> io_event list \<times> loop_status \<times> 'a Process" where
  "playback_start p es =
     (let buffer_len = int (length (file_io_buffer p));
          channels = file_channels p
      in if channels = 0 then ([], Aborted, p)
         else let frames = cxx_div buffer_len channels
              in playback_loop buffer_len channels frames p es)"

section \<open>Facts about the power-of-two rounding\<close>


text \<open>
  The scan finds the highest set bit: for a non-zero word, \<open>top_bit\<close> is a set bit with
  no set bit above it, so the word lies between \<open>2 ^ top_bit\<close> and \<open>2 ^ (top_bit + 1)\<close>.
\<close>

lemma clz_scan_le: "clz_scan n z \<le> n"
  by (induction n) auto

lemma clz_scan_top:
  "\<exists>j<n. bit z j \<Longrightarrow>
   clz_scan n z < n \<and> bit z (n - 1 - clz_scan n z) \<and>
   (\<forall>j. n - 1 - clz_scan n z < j \<and> j < n \<longrightarrow> \<not> bit z j)"
proof (induction n)
  case 0
  then show ?case by simp
next
  case (Suc n)
  show ?case
  proof (cases "bit z n")
    case True
    then show ?thesis by auto
  next
    case False
    with Suc.prems have "\<exists>j<n. bit z j"
      by (metis less_Suc_eq)
    from Suc.IH [OF this] False show ?thesis
      by (auto simp: less_Suc_eq Suc_diff_Suc)
  qed
qed

lemma pow2_is_pow2: "n < 64 \<Longrightarrow> is_pow2 (2 ^ n)"
proof -
  assume n: "n < 64"
  have nz: "(2::size_t) ^ n \<noteq> 0" using n by simp
  have "(2::size_t) ^ n AND mask n = 0"
    by (rule bit_eqI) (auto simp: bit_and_iff bit_exp_iff bit_mask_iff)
  then show ?thesis using nz
    by (simp add: is_pow2_def mask_eq_decr_exp word_gt_0)
qed

lemma nat_bit_window: "2 ^ k \<le> (m::nat) \<Longrightarrow> m < 2 ^ Suc k \<Longrightarrow> bit m k"
proof -
  assume a: "2 ^ k \<le> m" "m < 2 ^ Suc k"
  have "m div 2 ^ k = 1"
  proof -
    have "m div 2 ^ k < 2" using a(2) by (simp add: less_mult_imp_div_less mult.commute)
    moreover have "1 \<le> m div 2 ^ k" using a(1)
      by (simp add: div_greater_zero_iff Suc_leI)
    ultimately show ?thesis by simp
  qed
  then show ?thesis by (simp add: bit_iff_odd)
qed

lemma nat_bit_lower: "bit (m::nat) k \<Longrightarrow> 2 ^ k \<le> m"
proof (rule ccontr)
  assume b: "bit m k" and "\<not> 2 ^ k \<le> m"
  then have "m div 2 ^ k = 0" by simp
  with b show False by (simp add: bit_iff_odd)
qed

lemma top_bit_bounds:
  fixes z :: size_t
  assumes "bit z k" and "\<forall>j. k < j \<longrightarrow> \<not> bit z j"
  shows "2 ^ k \<le> unat z" and "unat z < 2 ^ Suc k"
proof -
  have "bit (unat z) k" using assms(1) by (simp add: bit_unsigned_iff)
  then show "2 ^ k \<le> unat z" by (rule nat_bit_lower)
  have "take_bit (Suc k) (unat z) = unat z"
    by (rule bit_eqI) (use assms(2) in \<open>auto simp: bit_take_bit_iff bit_unsigned_iff not_less_eq\<close>)
  then show "unat z < 2 ^ Suc k"
    by (simp only: take_bit_nat_eq_self_iff)
qed

lemma nonzero_has_bit:
  fixes z :: size_t
  assumes "z \<noteq> 0"
  shows "\<exists>j<64. bit z j"
proof (rule ccontr)
  assume "\<not> (\<exists>j<64. bit z j)"
  then have "z = 0"
    by (intro bit_eqI) (auto simp: bit_simps dest: bit_imp_le_length)
  with assms show False by simp
qed

lemma top_bit_props:
  assumes "z \<noteq> 0"
  shows "top_bit z < 64" "bit z (top_bit z)" "\<forall>j. top_bit z < j \<longrightarrow> \<not> bit z j"
proof -
  from clz_scan_top [OF nonzero_has_bit [OF assms]]
  have c: "clz_scan 64 z < 64" "bit z (63 - clz_scan 64 z)"
     "\<forall>j. 63 - clz_scan 64 z < j \<and> j < 64 \<longrightarrow> \<not> bit z j"
    by simp_all
  show "top_bit z < 64" by (simp add: top_bit_def)
  show "bit z (top_bit z)" using c(2) by (simp add: top_bit_def countl_zero_def)
  show "\<forall>j. top_bit z < j \<longrightarrow> \<not> bit z j"
  proof (intro allI impI)
    fix j assume "top_bit z < j"
    show "\<not> bit z j"
    proof (cases "j < 64")
      case True
      with c(3) \<open>top_bit z < j\<close> show ?thesis by (simp add: top_bit_def countl_zero_def)
    next
      case False
      then show ?thesis by (auto dest: bit_imp_le_length)
    qed
  qed
qed

lemma unat_pow2: "n < 64 \<Longrightarrow> unat ((2::size_t) ^ n) = 2 ^ n"
proof -
  assume n: "n < 64"
  have lt: "(2::nat) ^ n < 2 ^ LENGTH(64)"
    using n by (intro power_strict_increasing) simp_all
  have "unat (word_of_nat (2 ^ n) :: size_t) = 2 ^ n mod 2 ^ LENGTH(64)"
    by (rule unat_of_nat)
  also have "\<dots> = 2 ^ n" using lt by (rule mod_less)
  finally show ?thesis by simp
qed

text \<open>The bit test \<open>is_pow2\<close> holds exactly for the powers of two.\<close>

lemma is_pow2_imp_exp:
  assumes "is_pow2 z"
  shows "\<exists>n<64. z = 2 ^ n"
proof -
  from assms have nz: "z \<noteq> 0" and a0: "z AND (z - 1) = 0"
    by (auto simp: is_pow2_def split: if_splits)
  define k where "k = top_bit z"
  note tb = top_bit_props [OF nz, folded k_def]
  note bd = top_bit_bounds [OF tb(2) tb(3)]
  have "unat z = 2 ^ k"
  proof (rule ccontr)
    assume "unat z \<noteq> 2 ^ k"
    with bd(1) have gt: "2 ^ k < unat z" by simp
    have "unat (z - 1) = unat z - 1" using nz by (rule unat_minus_one)
    with gt bd(2) have "2 ^ k \<le> unat (z - 1)" "unat (z - 1) < 2 ^ Suc k" by simp_all
    then have "bit (unat (z - 1)) k" by (rule nat_bit_window)
    then have "bit (z - 1) k" by (simp add: bit_unsigned_iff)
    with tb(2) have "bit (z AND (z - 1)) k" by (simp add: bit_and_iff)
    with a0 show False by simp
  qed
  then have "z = 2 ^ k" using tb(1)
    by (simp only: word_unat_eq_iff unat_pow2)
  with tb(1) show ?thesis by blast
qed

lemma is_pow2_iff: "is_pow2 z \<longleftrightarrow> (\<exists>n<64. z = 2 ^ n)"
  using is_pow2_imp_exp pow2_is_pow2 by blast


lemma next_pow2_shift:
  assumes "2 < z" "\<not> is_pow2 z"
  shows "next_pow2 z = push_bit (Suc (top_bit z)) 1"
  using assms by (simp add: next_pow2_def top_bit_def Let_def not_le)


section \<open>Facts about the circular buffer\<close>


text \<open>
  A well-formed buffer has a capacity \<open>2 ^ n\<close> with \<open>n < 64\<close>, which is also the length of
  its storage.
\<close>

lemma wf_cap:
  assumes "wf_buffer cb"
  obtains n where "n < 64" "capacity cb = 2 ^ n" "length (buffer cb) = 2 ^ n"
    "unat (capacity cb) = 2 ^ n"
proof -
  from assms have len: "length (buffer cb) < 2 ^ 64" and p: "is_pow2 (capacity cb)"
    by (simp_all add: wf_buffer_def)
  from p obtain n where n: "n < 64" "capacity cb = 2 ^ n"
    using is_pow2_imp_exp by blast
  have u: "unat (capacity cb) = length (buffer cb)"
    unfolding capacity_def using len by (simp add: unat_of_nat)
  with n have "length (buffer cb) = 2 ^ n" by (simp add: unat_pow2)
  with n u show thesis using that by simp
qed

text \<open>The arithmetic of the heads, on natural numbers.\<close>

lemma pow2_le_half: "n < 64 \<Longrightarrow> (2::nat) ^ n + 2 ^ n \<le> 2 ^ 64"
proof -
  assume "n < 64"
  then have "Suc n \<le> 64" by simp
  then have "(2::nat) ^ Suc n \<le> 2 ^ 64" by (rule power_increasing) simp
  then show ?thesis by simp
qed

lemma unat_and_mask_mod: "unat ((x::size_t) AND mask n) = unat x mod 2 ^ n"
proof -
  have "unat (x AND mask n) = unat (take_bit n x)"
    by (simp only: take_bit_eq_mask)
  also have "\<dots> = take_bit n (unat x)"
    by (rule unsigned_take_bit_eq)
  also have "\<dots> = unat x mod 2 ^ n"
    by (rule take_bit_eq_mod)
  finally show ?thesis .
qed

lemma read_available_nat:
  fixes r w c :: size_t
  assumes c: "c = 2 ^ n" "n < 64" and r: "r < c" and w: "w < c"
  shows "\<exists>ra. compute_read_available r w c = Some ra \<and>
           unat ra = (if unat r < unat w then unat w - unat r else unat r - unat w)"
proof -
  have pw: "is_pow2 c" using c by (simp add: pow2_is_pow2)
  have C: "unat c = 2 ^ n" using c by (simp add: unat_pow2)
  have R: "unat r < 2 ^ n" and W: "unat w < 2 ^ n"
    using r w C by (simp_all add: word_less_nat_alt)
  show ?thesis
  proof (cases "r < w")
    case True
    then have e: "unat (w - r) = unat w - unat r" by (simp add: unat_sub)
    have "unat (w - r) < unat c" unfolding e C using W by simp
    then have "w - r < c" by (simp only: word_less_nat_alt)
    then show ?thesis using True pw e
      by (simp add: compute_read_available_def word_less_nat_alt)
  next
    case False
    then have le: "unat w \<le> unat r" by (simp add: word_less_nat_alt)
    have m: "c - 1 = mask n" using c by (simp add: mask_eq_decr_exp)
    have cw: "unat (c - w) = 2 ^ n - unat w"
      using w C by (simp add: unat_sub)
    have "2 ^ n - unat w + unat r < 2 ^ n + 2 ^ n" using R W by simp
    also have "\<dots> \<le> 2 ^ 64" using c(2) by (rule pow2_le_half)
    finally have nowrap: "unat (c - w) + unat r < 2 ^ LENGTH(64)" using cw by simp
    have s: "unat (c - w + r) = 2 ^ n - unat w + unat r"
      using nowrap cw by (simp add: unat_add_lem [THEN iffD1])
    have "unat ((c - w + r) AND mask n) = (2 ^ n - unat w + unat r) mod 2 ^ n"
      by (simp only: unat_and_mask_mod s)
    also have "2 ^ n - unat w + unat r = (unat r - unat w) + 2 ^ n"
      using le W by simp
    also have "\<dots> mod 2 ^ n = unat r - unat w"
      using R by simp
    finally have x: "unat ((c - w + r) AND mask n) = unat r - unat w" .
    have "unat ((c - w + r) AND mask n) < unat c" unfolding x C using R by simp
    then have "(c - w + r) AND mask n < c" by (simp only: word_less_nat_alt)
    then show ?thesis using False pw x le
      by (simp add: compute_read_available_def m)
  qed
qed



lemma write_available_nat:
  fixes r w c :: size_t
  assumes c: "c = 2 ^ n" "n < 64" and r: "r < c" and w: "w < c"
  shows "\<exists>wa. compute_write_available r w c = Some wa \<and>
           unat wa = 2 ^ n - 1 - (if unat r < unat w then unat w - unat r else unat r - unat w)"
proof -
  have C: "unat c = 2 ^ n" using c by (simp add: unat_pow2)
  have R: "unat r < 2 ^ n" and W: "unat w < 2 ^ n"
    using r w C by (simp_all add: word_less_nat_alt)
  from read_available_nat [OF c r w] obtain ra where
    ra: "compute_read_available r w c = Some ra"
      "unat ra = (if unat r < unat w then unat w - unat r else unat r - unat w)"
    by blast
  have lt: "unat ra < 2 ^ n" unfolding ra(2) using R W
    by (auto intro: less_imp_diff_less)
  then have "ra \<le> c" by (simp add: word_le_nat_alt C)
  then have d: "unat (c - ra) = 2 ^ n - unat ra" by (simp add: unat_sub C)
  with lt have "c - ra \<noteq> 0" by (simp add: unat_eq_zero [symmetric] del: unat_eq_zero)
  then have "unat (c - ra - 1) = 2 ^ n - unat ra - 1" by (simp add: unat_minus_one d)
  then show ?thesis using ra
    by (simp add: compute_write_available_def)
qed

text \<open>What a successful \<open>std_copy\<close> leaves in the destination.\<close>

lemma std_copy_length: "std_copy src first final dst pos = Some d \<Longrightarrow> length d = length dst"
  by (auto simp: std_copy_def split: if_splits)

lemma nth_append3:
  assumes "length A = a" "length B = b"
  shows "(A @ B @ Cs) ! j =
     (if j < a then A ! j else if j < a + b then B ! (j - a) else Cs ! (j - a - b))"
  using assms by (auto simp: nth_append)

lemma std_copy_nth:
  assumes "std_copy src first final dst pos = Some d" "j < length dst"
  shows "d ! j = (if pos \<le> j \<and> j < pos + (final - first) then src ! (first + (j - pos))
                  else dst ! j)"
proof -
  define m where "m = final - first"
  from assms(1) have ok: "first \<le> final" "final \<le> length src" "pos + m \<le> length dst"
    and d: "d = take pos dst @ take m (drop first src) @ drop (pos + m) dst"
    by (auto simp: std_copy_def m_def split: if_splits)
  have la: "length (take pos dst) = pos" using ok(3) by simp
  have lb: "length (take m (drop first src)) = m" using ok(1,2) by (simp add: m_def)
  note split3 = nth_append3 [OF la lb, of "drop (pos + m) dst" j, folded d]
  consider "j < pos" | "pos \<le> j" "j < pos + m" | "pos + m \<le> j" by linarith
  then show ?thesis
  proof cases
    case 1
    then have "d ! j = take pos dst ! j" by (simp add: split3)
    also have "\<dots> = dst ! j" using 1 by simp
    finally show ?thesis using 1 by simp
  next
    case 2
    then have "d ! j = take m (drop first src) ! (j - pos)" by (simp add: split3)
    also have "\<dots> = drop first src ! (j - pos)" using 2 by simp
    also have "\<dots> = src ! (first + (j - pos))" using ok by simp
    finally show ?thesis using 2 ok(1) by (simp add: m_def)
  next
    case 3
    then have "d ! j = drop (pos + m) dst ! (j - pos - m)" by (simp add: split3)
    also have "\<dots> = dst ! (pos + m + (j - pos - m))" using ok by simp
    also have "pos + m + (j - pos - m) = j" using 3 by simp
    finally show ?thesis using 3 ok(1) by (simp add: m_def)
  qed
qed

lemma std_copy_ok:
  "first \<le> final \<Longrightarrow> final \<le> length src \<Longrightarrow> pos + (final - first) \<le> length dst \<Longrightarrow>
   \<exists>d. std_copy src first final dst pos = Some d"
  by (simp add: std_copy_def)

lemma mod_wrap:
  fixes a C :: nat
  assumes "a < C + C"
  shows "a mod C = (if a < C then a else a - C)"
proof (cases "a < C")
  case True
  then show ?thesis by simp
next
  case False
  then have "a = (a - C) + C" "a - C < C" using assms by simp_all
  then have "a mod C = a - C" by (metis mod_add_self2 mod_less)
  with False show ?thesis by simp
qed



text \<open>
  The one or two copies of \<open>dequeue\<close>, on lists: together they deliver the \<open>K\<close> elements
  that follow position \<open>R\<close> in ring order, which are the first \<open>K\<close> elements of the
  storage laid out twice and read from \<open>R\<close>.
\<close>

lemma ring_load:
  assumes len: "length buf = C" and R: "R < C" and K: "K < C" "K \<le> length dst"
  shows "(if C < R + K
          then (case std_copy buf R C dst 0 of None \<Rightarrow> None
                | Some d1 \<Rightarrow> std_copy buf 0 ((R + K) mod C) d1 (C - R))
          else std_copy buf R (R + K) dst 0)
         = Some (take K (drop R (buf @ buf)) @ drop K dst)"
proof (cases "C < R + K")
  case True
  define L where "L = R + K - C"
  have L: "(R + K) mod C = L" using True R K(1) by (simp add: mod_wrap L_def)
  have c1: "std_copy buf R C dst 0 = Some (drop R buf @ drop (C - R) dst)"
    using True R K len by (simp add: std_copy_def)
  have l1: "length (drop R buf @ drop (C - R) dst) = length dst"
    using True R K len by simp
  have c2: "std_copy buf 0 L (drop R buf @ drop (C - R) dst) (C - R)
            = Some (drop R buf @ take L buf @ drop K dst)"
    using True R K len by (simp add: std_copy_def L_def)
  have "take K (drop R (buf @ buf)) = drop R buf @ take L buf"
    using True R K len by (simp add: L_def add.commute)
  then show ?thesis using True c1 c2 L by simp
next
  case False
  then have "std_copy buf R (R + K) dst 0 = Some (take K (drop R buf) @ drop K dst)"
    using R K len by (simp add: std_copy_def)
  moreover have "take K (drop R (buf @ buf)) = take K (drop R buf)"
    using False R K len by simp
  ultimately show ?thesis using False by simp
qed




text \<open>
  The one or two copies of \<open>enqueue\<close>, on lists: element \<open>i\<close> of the source lands at
  position \<open>(W + i) mod C\<close>, and no other position changes.
\<close>

lemma ring_store:
  assumes len: "length buf = C" and W: "W < C" and K: "K < C" "K \<le> length src"
  shows "\<exists>b. (if C < W + K
               then (case std_copy src 0 (C - W) buf W of None \<Rightarrow> None
                     | Some b1 \<Rightarrow> std_copy src (C - W) K b1 0)
               else std_copy src 0 K buf W) = Some b \<and>
              length b = C \<and>
              (\<forall>i<K. b ! ((W + i) mod C) = src ! i) \<and>
              (\<forall>j<C. (\<forall>i<K. j \<noteq> (W + i) mod C) \<longrightarrow> b ! j = buf ! j)"
proof (cases "C < W + K")
  case True
  have h: "C - W \<le> length src" "C - W \<le> K" using True K by linarith+
  obtain b1 where b1: "std_copy src 0 (C - W) buf W = Some b1"
    using std_copy_ok [of 0 "C - W" src W buf] h W len by auto
  have l1: "length b1 = C" using std_copy_length [OF b1] len by simp
  have h2: "0 + (K - (C - W)) \<le> length b1" using K W l1 by linarith
  obtain b2 where b2: "std_copy src (C - W) K b1 0 = Some b2"
    using std_copy_ok [OF h(2) K(2) h2] by blast
  have l2: "length b2 = C" using std_copy_length [OF b2] l1 by simp
  have n1: "b1 ! j = (if W \<le> j then src ! (j - W) else buf ! j)" if "j < C" for j
    using std_copy_nth [OF b1, of j] that len W by auto
  have e: "K - (C - W) = W + K - C" using W by simp
  have n2: "b2 ! j = (if j < W + K - C then src ! (C - W + j) else b1 ! j)" if "j < C" for j
    using std_copy_nth [OF b2, of j] that l1 by (simp add: e)
  have n: "b2 ! j = (if j < W + K - C then src ! (C - W + j)
                     else if W \<le> j then src ! (j - W) else buf ! j)" if "j < C" for j
    using n1 [OF that] n2 [OF that] by simp
  have p1: "b2 ! ((W + i) mod C) = src ! i" if "i < K" for i
  proof (cases "W + i < C")
    case a: True
    have neg: "\<not> W + i < W + K - C" using K(1) by linarith
    have "b2 ! (W + i) = (if W \<le> W + i then src ! (W + i - W) else buf ! (W + i))"
      by (simp only: n [OF a] if_not_P [OF neg])
    then have "b2 ! (W + i) = src ! i" by simp
    moreover have "(W + i) mod C = W + i" using a by (rule mod_less)
    ultimately show ?thesis by (simp only:)
  next
    case b: False
    then have "(W + i) mod C = W + i - C" using that W K(1) by (simp add: mod_wrap)
    moreover have "W + i - C < W + K - C" "W + i - C < C" using b that W K(1) by linarith+
    moreover have "C - W + (W + i - C) = i" using b W by linarith
    ultimately show ?thesis using n [of "W + i - C"] by simp
  qed
  have p2: "b2 ! j = buf ! j" if j: "j < C" and nj: "\<forall>i<K. j \<noteq> (W + i) mod C" for j
  proof -
    have "\<not> j < W + K - C"
    proof
      assume a: "j < W + K - C"
      then have k: "j + C - W < K" using W by linarith
      have "W + (j + C - W) = j + C" using W by linarith
      then have m: "(W + (j + C - W)) mod C = j" using j by (simp only: mod_add_self2 mod_less)
      from nj [rule_format, OF k] m show False by simp
    qed
    moreover have "\<not> W \<le> j"
    proof
      assume a: "W \<le> j"
      then have k: "j - W < K" using j True by linarith
      have "W + (j - W) = j" using a by linarith
      then have m: "(W + (j - W)) mod C = j" using j by (simp only: mod_less)
      from nj [rule_format, OF k] m show False by simp
    qed
    ultimately show ?thesis using n [OF j] by simp
  qed
  have "(if C < W + K
         then (case std_copy src 0 (C - W) buf W of None \<Rightarrow> None
               | Some b1 \<Rightarrow> std_copy src (C - W) K b1 0)
         else std_copy src 0 K buf W) = Some b2"
    using True b1 b2 by simp
  moreover have "\<forall>i<K. b2 ! ((W + i) mod C) = src ! i"
    by (intro allI impI) (rule p1)
  moreover have "\<forall>j<C. (\<forall>i<K. j \<noteq> (W + i) mod C) \<longrightarrow> b2 ! j = buf ! j"
    by (intro allI impI) (rule p2)
  ultimately show ?thesis using l2 by (intro exI [of _ b2] conjI)
next
  case False
  obtain b where b: "std_copy src 0 K buf W = Some b"
    using std_copy_ok [of 0 K src W buf] False K len by auto
  have l: "length b = C" using std_copy_length [OF b] len by simp
  have n: "b ! j = (if W \<le> j \<and> j < W + K then src ! (j - W) else buf ! j)" if "j < C" for j
    using std_copy_nth [OF b, of j] that len by simp
  have p1: "b ! ((W + i) mod C) = src ! i" if "i < K" for i
    using n [of "W + i"] that False by simp
  have p2: "b ! j = buf ! j" if j: "j < C" and nj: "\<forall>i<K. j \<noteq> (W + i) mod C" for j
  proof -
    have "\<not> (W \<le> j \<and> j < W + K)"
    proof
      assume a: "W \<le> j \<and> j < W + K"
      then have k: "j - W < K" by linarith
      have "W + (j - W) = j" using a by linarith
      then have m: "(W + (j - W)) mod C = j" using j by (simp only: mod_less)
      from nj [rule_format, OF k] m show False by simp
    qed
    then show ?thesis using n [OF j] by auto
  qed
  have "(if C < W + K
         then (case std_copy src 0 (C - W) buf W of None \<Rightarrow> None
               | Some b1 \<Rightarrow> std_copy src (C - W) K b1 0)
         else std_copy src 0 K buf W) = Some b"
    using False b by simp
  moreover have "\<forall>i<K. b ! ((W + i) mod C) = src ! i"
    by (intro allI impI) (rule p1)
  moreover have "\<forall>j<C. (\<forall>i<K. j \<noteq> (W + i) mod C) \<longrightarrow> b ! j = buf ! j"
    by (intro allI impI) (rule p2)
  ultimately show ?thesis using l by (intro exI [of _ b] conjI)
qed




text \<open>
  The two operations on a well-formed buffer: neither fails, both keep the buffer
  well-formed, and each moves only its own head.
\<close>

lemma wf_facts:
  assumes "wf_buffer cb"
  obtains n where "n < 64" "capacity cb = 2 ^ n" "length (buffer cb) = 2 ^ n"
    "read_head cb < 2 ^ n" "write_head cb < 2 ^ n"
proof -
  from wf_cap [OF assms] obtain n where
    n: "n < 64" "capacity cb = 2 ^ n" "length (buffer cb) = 2 ^ n" by blast
  from assms have "read_head cb < capacity cb" "write_head cb < capacity cb"
    by (simp_all add: wf_buffer_def)
  with n show thesis using that by simp
qed

lemma advance_nat:
  fixes h k c :: size_t
  assumes c: "c = 2 ^ n" "n < 64" and h: "h < c" and k: "k < c"
  shows "unat (h + k) = unat h + unat k"
    and "(c < h + k) = (2 ^ n < unat h + unat k)"
    and "unat ((h + k) AND (c - 1)) = (unat h + unat k) mod 2 ^ n"
    and "(h + k) AND (c - 1) < c"
    and "unat (c - h) = 2 ^ n - unat h"
proof -
  have C: "unat c = 2 ^ n" using c by (simp add: unat_pow2)
  have H: "unat h < 2 ^ n" and K: "unat k < 2 ^ n"
    using h k C by (simp_all add: word_less_nat_alt)
  have "unat h + unat k < 2 ^ n + 2 ^ n" using H K by simp
  also have "\<dots> \<le> 2 ^ 64" using c(2) by (rule pow2_le_half)
  finally have "unat h + unat k < 2 ^ LENGTH(64)" by simp
  then show s: "unat (h + k) = unat h + unat k"
    by (simp only: unat_add_lem [THEN iffD1])
  show "(c < h + k) = (2 ^ n < unat h + unat k)"
    by (simp only: word_less_nat_alt s C)
  have m: "c - 1 = mask n" using c by (simp add: mask_eq_decr_exp)
  show a: "unat ((h + k) AND (c - 1)) = (unat h + unat k) mod 2 ^ n"
    by (simp only: m unat_and_mask_mod s)
  have "unat ((h + k) AND (c - 1)) < unat c"
    by (simp only: a C) simp
  then show "(h + k) AND (c - 1) < c" by (simp only: word_less_nat_alt)
  show "unat (c - h) = 2 ^ n - unat h"
    using h C by (simp add: unat_sub)
qed

lemma unat_min: "unat (min a b) = min (unat a) (unat b)"
  by (simp add: min_def word_le_nat_alt)

lemma enqueue_wf:
  assumes wf: "wf_buffer cb" and src: "unat sz \<le> length src"
  obtains cb' wa where
    "get_write_available cb = Some wa"
    "enqueue cb src sz = Some (cb', min sz wa)"
    "wf_buffer cb'"
    "read_head cb' = read_head cb"
    "length (buffer cb') = length (buffer cb)"
    "unat (write_head cb') = (unat (write_head cb) + unat (min sz wa)) mod length (buffer cb)"
    "\<forall>i<unat (min sz wa).
       buffer cb' ! ((unat (write_head cb) + i) mod length (buffer cb)) = src ! i"
    "\<forall>j<length (buffer cb).
       (\<forall>i<unat (min sz wa). j \<noteq> (unat (write_head cb) + i) mod length (buffer cb)) \<longrightarrow>
       buffer cb' ! j = buffer cb ! j"
proof -
  from wf_facts [OF wf] obtain n where
    n: "n < 64" "capacity cb = 2 ^ n" "length (buffer cb) = 2 ^ n"
      "read_head cb < 2 ^ n" "write_head cb < 2 ^ n" by blast
  define c :: size_t where "c = 2 ^ n"
  define w where "w = write_head cb"
  define r where "r = read_head cb"
  have cap: "capacity cb = c" and rc: "r < c" and wc: "w < c"
    using n by (simp_all add: c_def w_def r_def)
  have C: "unat c = 2 ^ n" using n(1) by (simp add: c_def unat_pow2)
  from write_available_nat [OF c_def n(1) rc wc] obtain wa where
    wa: "compute_write_available r w c = Some wa"
      "unat wa = 2 ^ n - 1 - (if unat r < unat w then unat w - unat r else unat r - unat w)"
    by blast
  define k where "k = min sz wa"
  have WA: "unat wa < 2 ^ n" unfolding wa(2) by simp
  have K: "unat k < 2 ^ n" "unat k \<le> length src"
    using WA src by (simp_all add: k_def unat_min)
  have kc: "k < c" using K(1) by (simp only: word_less_nat_alt C)
  note adv = advance_nat [OF c_def n(1) wc kc]
  define lo where "lo = (w + k) AND (c - 1)"
  have W: "unat w < 2 ^ n" using wc by (simp only: word_less_nat_alt C)
  from ring_store [OF n(3) W K] obtain b where
    b: "(if 2 ^ n < unat w + unat k
         then (case std_copy src 0 (2 ^ n - unat w) (buffer cb) (unat w) of None \<Rightarrow> None
               | Some b1 \<Rightarrow> std_copy src (2 ^ n - unat w) (unat k) b1 0)
         else std_copy src 0 (unat k) (buffer cb) (unat w)) = Some b"
      "length b = 2 ^ n"
      "\<forall>i<unat k. b ! ((unat w + i) mod 2 ^ n) = src ! i"
      "\<forall>j<2 ^ n. (\<forall>i<unat k. j \<noteq> (unat w + i) mod 2 ^ n) \<longrightarrow> b ! j = buffer cb ! j"
    by blast
  define cb' where "cb' = cb\<lparr>buffer := b, write_head := lo\<rparr>"
  have gw: "get_write_available cb = Some wa"
    using wa(1) by (simp add: get_write_available_def cap r_def w_def)
  have enq: "enqueue cb src sz = Some (cb', k)"
    using wa(1) b(1)
    by (auto simp: enqueue_def Let_def cap r_def [symmetric] w_def [symmetric]
        k_def [symmetric] adv(2,5) lo_def cb'_def cong: option.case_cong
        split: if_splits option.splits)
  have cap': "capacity cb' = c"
    using b(2) n(3) cap by (simp add: capacity_def cb'_def)
  have wf': "wf_buffer cb'"
    using wf adv(4) rc b(2) n(3) cap'
    by (simp add: wf_buffer_def lo_def [symmetric] cb'_def r_def cap)
  show thesis
  proof (rule that [of wa cb'])
    show "get_write_available cb = Some wa" by fact
    show "enqueue cb src sz = Some (cb', min sz wa)" using enq by (simp add: k_def)
    show "wf_buffer cb'" by fact
    show "read_head cb' = read_head cb" by (simp add: cb'_def)
    show "length (buffer cb') = length (buffer cb)" using b(2) n(3) by (simp add: cb'_def)
    show "unat (write_head cb') = (unat (write_head cb) + unat (min sz wa)) mod length (buffer cb)"
      using adv(3) by (simp add: cb'_def lo_def n(3) k_def w_def)
    show "\<forall>i<unat (min sz wa).
       buffer cb' ! ((unat (write_head cb) + i) mod length (buffer cb)) = src ! i"
      using b(3) by (simp add: cb'_def n(3) k_def w_def)
    show "\<forall>j<length (buffer cb).
       (\<forall>i<unat (min sz wa). j \<noteq> (unat (write_head cb) + i) mod length (buffer cb)) \<longrightarrow>
       buffer cb' ! j = buffer cb ! j"
      using b(4) by (simp add: cb'_def n(3) k_def w_def)
  qed
qed



lemma dequeue_wf:
  assumes wf: "wf_buffer cb" and dst: "unat sz \<le> length dst"
  obtains cb' ra where
    "get_read_available cb = Some ra"
    "dequeue cb dst sz =
       Some (cb', take (unat (min sz ra)) (drop (unat (read_head cb)) (buffer cb @ buffer cb))
                  @ drop (unat (min sz ra)) dst, min sz ra)"
    "wf_buffer cb'"
    "buffer cb' = buffer cb"
    "write_head cb' = write_head cb"
    "unat (read_head cb') = (unat (read_head cb) + unat (min sz ra)) mod length (buffer cb)"
proof -
  from wf_facts [OF wf] obtain n where
    n: "n < 64" "capacity cb = 2 ^ n" "length (buffer cb) = 2 ^ n"
      "read_head cb < 2 ^ n" "write_head cb < 2 ^ n" by blast
  define c :: size_t where "c = 2 ^ n"
  define w where "w = write_head cb"
  define r where "r = read_head cb"
  have cap: "capacity cb = c" and rc: "r < c" and wc: "w < c"
    using n by (simp_all add: c_def w_def r_def)
  have C: "unat c = 2 ^ n" using n(1) by (simp add: c_def unat_pow2)
  have R: "unat r < 2 ^ n" and W: "unat w < 2 ^ n"
    using rc wc by (simp_all only: word_less_nat_alt C)
  from read_available_nat [OF c_def n(1) rc wc] obtain ra where
    ra: "compute_read_available r w c = Some ra"
      "unat ra = (if unat r < unat w then unat w - unat r else unat r - unat w)"
    by blast
  define k where "k = min sz ra"
  have RA: "unat ra < 2 ^ n" unfolding ra(2) using R W
    by (auto intro: less_imp_diff_less)
  have K: "unat k < 2 ^ n" "unat k \<le> length dst"
    using RA dst by (simp_all add: k_def unat_min)
  have kc: "k < c" using K(1) by (simp only: word_less_nat_alt C)
  note adv = advance_nat [OF c_def n(1) rc kc]
  define lo where "lo = (r + k) AND (c - 1)"
  define out where
    "out = take (unat k) (drop (unat r) (buffer cb @ buffer cb)) @ drop (unat k) dst"
  note ld = ring_load [OF n(3) R K, folded out_def]
  define cb' where "cb' = cb\<lparr>read_head := lo\<rparr>"
  have gr: "get_read_available cb = Some ra"
    using ra(1) by (simp add: get_read_available_def cap r_def w_def)
  have lo_nat: "unat lo = (unat r + unat k) mod 2 ^ n"
    using adv(3) by (simp only: lo_def)
  have deq: "dequeue cb dst sz = Some (cb', out, k)"
    using ra(1) ld
    by (auto simp: dequeue_def Let_def cap r_def [symmetric] w_def [symmetric]
        k_def [symmetric] adv(2,5) lo_nat n(3) lo_def [symmetric] cb'_def
        cong: option.case_cong split: if_splits option.splits)
  have cap': "capacity cb' = c"
    using cap by (simp add: capacity_def cb'_def)
  have wf': "wf_buffer cb'"
    using wf adv(4) wc cap'
    by (simp add: wf_buffer_def lo_def [symmetric] cb'_def w_def cap)
  show thesis
  proof (rule that [of ra cb'])
    show "get_read_available cb = Some ra" by fact
    show "dequeue cb dst sz =
       Some (cb', take (unat (min sz ra)) (drop (unat (read_head cb)) (buffer cb @ buffer cb))
                  @ drop (unat (min sz ra)) dst, min sz ra)"
      using deq by (simp add: k_def out_def r_def)
    show "wf_buffer cb'" by fact
    show "buffer cb' = buffer cb" by (simp add: cb'_def)
    show "write_head cb' = write_head cb" by (simp add: cb'_def)
    show "unat (read_head cb') = (unat (read_head cb) + unat (min sz ra)) mod length (buffer cb)"
      using adv(3) by (simp add: cb'_def lo_def n(3) k_def r_def)
  qed
qed



text \<open>
  The constructor yields a well-formed buffer whenever the capacity it computes is at
  least 2, and sequences of calls keep it well-formed. A default-constructed buffer is
  not well-formed: its queries fail their assertion.
\<close>

lemma default_buffer_aborts:
  "get_read_available (CircularBuffer_default :: 'a CircularBuffer) = None"
  "get_write_available (CircularBuffer_default :: 'a CircularBuffer) = None"
  "enqueue (CircularBuffer_default :: 'a CircularBuffer) src n = None"
  "dequeue (CircularBuffer_default :: 'a CircularBuffer) dst n = None"
  by (simp_all add: get_read_available_def get_write_available_def enqueue_def dequeue_def
      compute_write_available_def compute_read_available_def capacity_def
      CircularBuffer_default_def is_pow2_def)

lemma next_pow2_is_pow2:
  assumes "2 \<le> next_pow2 z"
  shows "is_pow2 (next_pow2 z)"
proof -
  consider "z \<le> 2" | "2 < z" "is_pow2 z" | "2 < z" "\<not> is_pow2 z" by fastforce
  then show ?thesis
  proof cases
    case 1
    then have "next_pow2 z = 2 ^ 1" by (simp add: next_pow2_def)
    then show ?thesis using pow2_is_pow2 [of 1] by simp
  next
    case 2
    from 2(1) have "\<not> z \<le> 2" by (simp add: not_le)
    with 2(2) show ?thesis by (simp add: next_pow2_def)
  next
    case 3
    have e: "next_pow2 z = 2 ^ Suc (top_bit z)"
      by (simp only: next_pow2_shift [OF 3] push_bit_eq_mult) simp
    have "Suc (top_bit z) < 64"
    proof (rule ccontr)
      assume "\<not> Suc (top_bit z) < 64"
      then have "(2::size_t) ^ Suc (top_bit z) = 0"
        by (simp only: exp_eq_zero_iff) simp
      with e assms show False by simp
    qed
    then show ?thesis unfolding e by (rule pow2_is_pow2)
  qed
qed

lemma capacity_new: "capacity (CircularBuffer_new requested) = next_pow2 requested"
  by (simp add: capacity_def CircularBuffer_new_def)

lemma new_wf:
  assumes "2 \<le> capacity (CircularBuffer_new requested :: ('a::zero) CircularBuffer)"
  shows "wf_buffer (CircularBuffer_new requested :: 'a CircularBuffer)"
proof -
  have c: "2 \<le> next_pow2 requested" using assms by (simp only: capacity_new)
  then have z: "0 < next_pow2 requested"
    by (cases "next_pow2 requested = 0") (simp_all add: word_gt_0)
  have "length (buffer (CircularBuffer_new requested :: 'a CircularBuffer)) < 2 ^ 64"
    using unsigned_less [of "next_pow2 requested"] by (simp add: CircularBuffer_new_def)
  then show ?thesis using next_pow2_is_pow2 [OF c] z
    by (simp add: wf_buffer_def capacity_new) (simp add: CircularBuffer_new_def)
qed

lemma run_ops_wf:
  assumes "wf_buffer cb" "\<forall>op\<in>set ops. op_ok op"
  shows "\<exists>cb'. run_ops cb ops = Some cb' \<and> wf_buffer cb' \<and>
           length (buffer cb') = length (buffer cb)"
  using assms
proof (induction ops arbitrary: cb)
  case Nil
  then show ?case by simp
next
  case (Cons op ops)
  show ?case
  proof (cases op)
    case (Enq src n)
    with Cons.prems have ok: "unat n \<le> length src" by simp
    from enqueue_wf [OF Cons.prems(1) ok] obtain cb1 wa where
      s: "enqueue cb src n = Some (cb1, min n wa)" "wf_buffer cb1"
        "length (buffer cb1) = length (buffer cb)" by metis
    from Cons.IH [OF s(2)] Cons.prems(2) obtain cb' where
      "run_ops cb1 ops = Some cb'" "wf_buffer cb'" "length (buffer cb') = length (buffer cb1)"
      by auto
    then show ?thesis using s Enq by simp
  next
    case (Deq dst n)
    with Cons.prems have ok: "unat n \<le> length dst" by simp
    from dequeue_wf [OF Cons.prems(1) ok] obtain cb1 ra where
      s: "dequeue cb dst n =
       Some (cb1, take (unat (min n ra)) (drop (unat (read_head cb)) (buffer cb @ buffer cb))
                  @ drop (unat (min n ra)) dst, min n ra)" "wf_buffer cb1"
        "buffer cb1 = buffer cb" by metis
    from Cons.IH [OF s(2)] Cons.prems(2) obtain cb' where
      "run_ops cb1 ops = Some cb'" "wf_buffer cb'" "length (buffer cb') = length (buffer cb1)"
      by auto
    then show ?thesis using s Deq by simp
  qed
qed

lemma available_sum:
  assumes "wf_buffer cb"
  shows "\<exists>ra wa. get_read_available cb = Some ra \<and> get_write_available cb = Some wa \<and>
           unat ra + unat wa = unat (capacity cb) - 1"
proof -
  from wf_facts [OF assms] obtain n where
    n: "n < 64" "capacity cb = 2 ^ n" "length (buffer cb) = 2 ^ n"
      "read_head cb < 2 ^ n" "write_head cb < 2 ^ n" by blast
  have C: "unat (capacity cb) = 2 ^ n" using n by (simp add: unat_pow2)
  have R: "unat (read_head cb) < 2 ^ n" and W: "unat (write_head cb) < 2 ^ n"
    using n(4,5) by (simp_all only: word_less_nat_alt unat_pow2 [OF n(1)])
  from read_available_nat [OF refl n(1) n(4) n(5)] obtain ra where
    ra: "compute_read_available (read_head cb) (write_head cb) (2 ^ n) = Some ra"
      "unat ra = (if unat (read_head cb) < unat (write_head cb)
                  then unat (write_head cb) - unat (read_head cb)
                  else unat (read_head cb) - unat (write_head cb))"
    by blast
  from write_available_nat [OF refl n(1) n(4) n(5)] obtain wa where
    wa: "compute_write_available (read_head cb) (write_head cb) (2 ^ n) = Some wa"
      "unat wa = 2 ^ n - 1 - (if unat (read_head cb) < unat (write_head cb)
                  then unat (write_head cb) - unat (read_head cb)
                  else unat (read_head cb) - unat (write_head cb))"
    by blast
  have "unat ra < 2 ^ n" unfolding ra(2) using R W by (auto intro: less_imp_diff_less)
  then have "unat ra + unat wa = 2 ^ n - 1" using wa(2) ra(2) by simp
  then show ?thesis using ra(1) wa(1)
    by (simp add: get_read_available_def get_write_available_def n(2) unat_pow2 [OF n(1)])
qed

section \<open>Facts about the IO loops\<close>



text \<open>
  The shape of a trace of the capture loop: either the loop has not exited and no write
  in the trace is short, or the loop has exited and the trace ends with the only short
  write.
\<close>

lemma record_loop_shape:
  "record_loop bl fr p es = (tr, st, p') \<Longrightarrow>
     (st \<noteq> Loop_Exited \<and> (\<forall>n m. File_Write n m \<in> set tr \<longrightarrow> \<not> m < n)) \<or>
     (st = Loop_Exited \<and>
      (\<exists>tr0 m. tr = tr0 @ [File_Write fr m] \<and> m < fr \<and>
         (\<forall>n m. File_Write n m \<in> set tr0 \<longrightarrow> \<not> m < n)))"
proof (induction es arbitrary: p tr st p')
  case Nil
  then show ?case by auto
next
  case (Cons e es)
  show ?case
  proof (cases "run_write_frames p (rt_calls e)")
    case None
    with Cons.prems show ?thesis by auto
  next
    case (Some p1)
    note p1 = Some
    show ?thesis
    proof (cases "get_read_available (circ_buffer p1)")
      case None
      with Cons.prems p1 show ?thesis by auto
    next
      case (Some ra)
      note ra = Some
      show ?thesis
      proof (cases "ra > word_of_int bl")
        case False
        obtain tr' st' p3 where r: "record_loop bl fr p1 es = (tr', st', p3)"
          by (cases "record_loop bl fr p1 es") auto
        with Cons.prems p1 ra False have e: "tr = Check_Available ra # tr'" "st = st'"
          by auto
        from Cons.IH [OF r] show ?thesis
        proof
          assume "st' \<noteq> Loop_Exited \<and> (\<forall>n m. File_Write n m \<in> set tr' \<longrightarrow> \<not> m < n)"
          then show ?thesis using e by auto
        next
          assume "st' = Loop_Exited \<and>
            (\<exists>tr0 m. tr' = tr0 @ [File_Write fr m] \<and> m < fr \<and>
              (\<forall>n m. File_Write n m \<in> set tr0 \<longrightarrow> \<not> m < n))"
          then obtain tr0 m where t: "st' = Loop_Exited" "tr' = tr0 @ [File_Write fr m]" "m < fr"
            "\<forall>n m. File_Write n m \<in> set tr0 \<longrightarrow> \<not> m < n" by blast
          have "tr = (Check_Available ra # tr0) @ [File_Write fr m]" using e t by simp
          moreover have "\<forall>n m. File_Write n m \<in> set (Check_Available ra # tr0) \<longrightarrow> \<not> m < n"
            using t(4) by simp
          ultimately show ?thesis using e t(1,3) by blast
        qed
      next
        case True
        show ?thesis
        proof (cases "dequeue (circ_buffer p1) (file_io_buffer p1) (word_of_int bl)")
          case None
          with Cons.prems p1 ra True show ?thesis by auto
        next
          case (Some trip)
          then obtain cb buf k where
            dq: "dequeue (circ_buffer p1) (file_io_buffer p1) (word_of_int bl) = Some (cb, buf, k)"
            by (cases trip) auto
          define p2 where "p2 = p1\<lparr>circ_buffer := cb, file_io_buffer := buf\<rparr>"
          define evs where "evs = [Check_Available ra, Dequeued (word_of_int bl) k]"
          show ?thesis
          proof (cases "file_count e < fr")
            case short: True
            with Cons.prems p1 ra True dq
            have "tr = evs @ [File_Write fr (file_count e)]" "st = Loop_Exited"
              by (auto simp: evs_def Let_def)
            moreover have "\<forall>n m. File_Write n m \<in> set evs \<longrightarrow> \<not> m < n"
              by (simp add: evs_def)
            ultimately show ?thesis using short by blast
          next
            case full: False
            obtain tr' st' p3 where r: "record_loop bl fr p2 es = (tr', st', p3)"
              by (cases "record_loop bl fr p2 es") auto
            with Cons.prems p1 ra True dq full
            have e: "tr = evs @ File_Write fr (file_count e) # tr'" "st = st'"
              by (auto simp: evs_def Let_def p2_def)
            from Cons.IH [OF r] show ?thesis
            proof
              assume "st' \<noteq> Loop_Exited \<and> (\<forall>n m. File_Write n m \<in> set tr' \<longrightarrow> \<not> m < n)"
              then show ?thesis using e full by (auto simp: evs_def)
            next
              assume "st' = Loop_Exited \<and>
                (\<exists>tr0 m. tr' = tr0 @ [File_Write fr m] \<and> m < fr \<and>
                  (\<forall>n m. File_Write n m \<in> set tr0 \<longrightarrow> \<not> m < n))"
              then obtain tr0 m where t: "st' = Loop_Exited" "tr' = tr0 @ [File_Write fr m]"
                "m < fr" "\<forall>n m. File_Write n m \<in> set tr0 \<longrightarrow> \<not> m < n" by blast
              have "tr = (evs @ File_Write fr (file_count e) # tr0) @ [File_Write fr m]"
                using e t by simp
              moreover have "\<forall>n m. File_Write n m \<in> set (evs @ File_Write fr (file_count e) # tr0)
                  \<longrightarrow> \<not> m < n"
                using t(4) full by (auto simp: evs_def)
              ultimately show ?thesis using e t(1,3) by blast
            qed
          qed
        qed
      qed
    qed
  qed
qed

lemma snoc_split_unique:
  assumes "pre @ a # post = tr0 @ [b]" "a \<notin> set tr0"
  shows "pre = tr0 \<and> a = b \<and> post = []"
proof (cases post rule: rev_cases)
  case Nil
  with assms(1) show ?thesis by simp
next
  case (snoc ys y)
  with assms(1) have "tr0 = pre @ a # ys" by simp
  with assms(2) show ?thesis by simp
qed









section \<open>The claims\<close>

text \<open>
  Claim C1, evaluated where it fails. A buffer of capacity 4 is emptied at head position
  2 by an enqueue and a dequeue of two elements. An enqueue of the three values
  10, 20, 30 then returns 3 and wraps around the end of the storage. The immediately
  following dequeue of three elements returns 1 and delivers only the value 10:
  \<open>compute_read_available\<close> reports 1 readable element where 3 are stored, because its
  branch for \<open>write_head \<le> read_head\<close> computes \<open>capacity - write_head + read_head\<close>
  instead of \<open>capacity - read_head + write_head\<close>.
\<close>

theorem round_trip_wrapped_returns_one:
  "capacity (CircularBuffer_new 4 :: int CircularBuffer) = 4 \<and>
   enqueue (CircularBuffer_new 4) [1, 2::int] 2
     = Some (\<lparr>buffer = [1, 2, 0, 0], read_head = 0, write_head = 2\<rparr>, 2) \<and>
   dequeue \<lparr>buffer = [1, 2, 0, 0::int], read_head = 0, write_head = 2\<rparr> [0, 0] 2
     = Some (\<lparr>buffer = [1, 2, 0, 0], read_head = 2, write_head = 2\<rparr>, [1, 2], 2) \<and>
   get_read_available \<lparr>buffer = [1, 2, 0, 0::int], read_head = 2, write_head = 2\<rparr> = Some 0 \<and>
   enqueue \<lparr>buffer = [1, 2, 0, 0::int], read_head = 2, write_head = 2\<rparr> [10, 20, 30] 3
     = Some (\<lparr>buffer = [30, 2, 10, 20], read_head = 2, write_head = 1\<rparr>, 3) \<and>
   get_read_available \<lparr>buffer = [30, 2, 10, 20::int], read_head = 2, write_head = 1\<rparr> = Some 1 \<and>
   dequeue \<lparr>buffer = [30, 2, 10, 20::int], read_head = 2, write_head = 1\<rparr> [0, 0, 0] 3
     = Some (\<lparr>buffer = [30, 2, 10, 20], read_head = 3, write_head = 1\<rparr>, [10, 0, 0], 1)"
  by code_simp

text \<open>
  Claim C2. On a buffer object in a well-formed state, and with a source array that holds
  the \<open>n\<close> requested elements, \<open>enqueue\<close> returns \<open>min n write_available\<close>, moves
  \<open>write_head\<close> forward by that amount modulo the capacity, stores the first returned
  elements of the source, in order, at the positions from the old \<open>write_head\<close> on
  (wrapping at the capacity) and leaves every other element and \<open>read_head\<close> alone. When
  nothing is available it returns 0 and \<open>write_head\<close> is unchanged.
\<close>

theorem enqueue_spec:
  assumes "wf_buffer cb" and "unat n \<le> length src"
  shows "\<exists>cb' wa. get_write_available cb = Some wa \<and>
           enqueue cb src n = Some (cb', min n wa) \<and>
           unat (write_head cb') = (unat (write_head cb) + unat (min n wa)) mod unat (capacity cb) \<and>
           (\<forall>i<unat (min n wa).
              buffer cb' ! ((unat (write_head cb) + i) mod unat (capacity cb)) = src ! i) \<and>
           (\<forall>j<unat (capacity cb).
              (\<forall>i<unat (min n wa). j \<noteq> (unat (write_head cb) + i) mod unat (capacity cb)) \<longrightarrow>
              buffer cb' ! j = buffer cb ! j) \<and>
           read_head cb' = read_head cb \<and>
           (wa = 0 \<longrightarrow> min n wa = 0 \<and> write_head cb' = write_head cb)"
proof -
  from wf_cap [OF assms(1)] obtain m where
    m: "m < 64" "length (buffer cb) = 2 ^ m" "unat (capacity cb) = 2 ^ m" by blast
  have len: "length (buffer cb) = unat (capacity cb)" using m by simp
  from enqueue_wf [OF assms] obtain cb' wa where
    e: "get_write_available cb = Some wa"
      "enqueue cb src n = Some (cb', min n wa)"
      "wf_buffer cb'"
      "read_head cb' = read_head cb"
      "length (buffer cb') = length (buffer cb)"
      "unat (write_head cb') = (unat (write_head cb) + unat (min n wa)) mod length (buffer cb)"
      "\<forall>i<unat (min n wa).
         buffer cb' ! ((unat (write_head cb) + i) mod length (buffer cb)) = src ! i"
      "\<forall>j<length (buffer cb).
         (\<forall>i<unat (min n wa). j \<noteq> (unat (write_head cb) + i) mod length (buffer cb)) \<longrightarrow>
         buffer cb' ! j = buffer cb ! j"
    by (rule enqueue_wf [OF assms])
  have z: "min n wa = 0 \<and> write_head cb' = write_head cb" if "wa = 0"
  proof -
    have k: "min n wa = 0" using that by (simp add: min_def)
    have "unat (write_head cb) < unat (capacity cb)"
      using assms(1) by (simp add: wf_buffer_def word_less_nat_alt)
    then have "unat (write_head cb') = unat (write_head cb)"
      using e(6) by (simp add: k len)
    then show ?thesis using k by (simp only: word_unat_eq_iff)
  qed
  show ?thesis
    using e(1,2,4) e(6-8) [unfolded len] z by (intro exI [of _ cb'] exI [of _ wa] conjI impI) auto
qed

theorem enqueue_spec_witness:
  "wf_buffer \<lparr>buffer = [5, 6, 7, 0::int], read_head = 0, write_head = 3\<rparr> \<and>
   unat (2::size_t) \<le> length [8, 9::int] \<and>
   get_write_available \<lparr>buffer = [5, 6, 7, 0::int], read_head = 0, write_head = 3\<rparr> = Some 0 \<and>
   (\<exists>cb' wa. enqueue \<lparr>buffer = [5, 6, 7, 0::int], read_head = 0, write_head = 3\<rparr> [8, 9] 2
                = Some (cb', min 2 wa) \<and>
              (wa = 0 \<longrightarrow> min 2 wa = 0 \<and> write_head cb' = 3))"
proof -
  let ?cb = "\<lparr>buffer = [5, 6, 7, 0::int], read_head = 0, write_head = 3\<rparr>"
  have h1: "wf_buffer ?cb" by (simp add: wf_buffer_def capacity_def is_pow2_def)
  have h2: "unat (2::size_t) \<le> length [8, 9::int]" by simp
  have g: "get_write_available ?cb = Some 0" by code_simp
  from enqueue_spec [OF h1 h2] have
    "\<exists>cb' wa. enqueue ?cb [8, 9] 2 = Some (cb', min 2 wa) \<and>
       (wa = 0 \<longrightarrow> min 2 wa = 0 \<and> write_head cb' = 3)"
    by auto
  with h1 h2 g show ?thesis by blast
qed

text \<open>
  Claim C3. On a playback callback with frame count \<open>f\<close> and channel count \<open>c\<close>, on a
  well-formed ring buffer and with an output array of at least \<open>f * c\<close> samples: if
  \<open>read_available\<close> is strictly greater than \<open>f * c\<close>, exactly \<open>f * c\<close> samples are
  dequeued into the output array, in ring order from the old \<open>read_head\<close>, and
  \<open>read_head\<close> advances by \<open>f * c\<close> modulo the capacity; otherwise the first \<open>f * c\<close>
  samples of the output array are set to zero and the ring buffer is unchanged. The
  comparison of the code is strict: with exactly \<open>f * c\<close> samples readable the callback
  writes silence, as the counterexample shows.
\<close>

theorem read_frames_spec:
  assumes "wf_buffer (circ_buffer p)"
    and "unat (frames * word_of_int (file_channels p)) \<le> length output"
  shows "\<exists>ra. get_read_available (circ_buffer p) = Some ra \<and>
     (frames * word_of_int (file_channels p) < ra \<longrightarrow>
        (\<exists>p' notified.
           read_frames p try_lock output frames =
             Some (p', take (unat (frames * word_of_int (file_channels p)))
                         (drop (unat (read_head (circ_buffer p)))
                            (buffer (circ_buffer p) @ buffer (circ_buffer p)))
                       @ drop (unat (frames * word_of_int (file_channels p))) output,
                   notified) \<and>
           buffer (circ_buffer p') = buffer (circ_buffer p) \<and>
           write_head (circ_buffer p') = write_head (circ_buffer p) \<and>
           unat (read_head (circ_buffer p')) =
             (unat (read_head (circ_buffer p)) + unat (frames * word_of_int (file_channels p)))
               mod length (buffer (circ_buffer p)))) \<and>
     (ra \<le> frames * word_of_int (file_channels p) \<longrightarrow>
        (\<exists>p' notified.
           read_frames p try_lock output frames =
             Some (p', replicate (unat (frames * word_of_int (file_channels p))) 0
                       @ drop (unat (frames * word_of_int (file_channels p))) output,
                   notified) \<and>
           circ_buffer p' = circ_buffer p))"
proof -
  define dn :: size_t where "dn = frames * word_of_int (file_channels p)"
  note len = assms(2) [folded dn_def]
  from dequeue_wf [OF assms(1) len] obtain cb' ra where
    d: "get_read_available (circ_buffer p) = Some ra"
      "dequeue (circ_buffer p) output dn =
         Some (cb', take (unat (min dn ra))
                      (drop (unat (read_head (circ_buffer p)))
                         (buffer (circ_buffer p) @ buffer (circ_buffer p)))
                    @ drop (unat (min dn ra)) output, min dn ra)"
      "buffer cb' = buffer (circ_buffer p)"
      "write_head cb' = write_head (circ_buffer p)"
      "unat (read_head cb') =
         (unat (read_head (circ_buffer p)) + unat (min dn ra)) mod length (buffer (circ_buffer p))"
    by metis
  have enough: ?thesis if lt: "dn < ra"
  proof -
    from lt have "dn \<le> ra" by (rule order.strict_implies_order)
    then have m: "min dn ra = dn" by (simp add: min_def)
    show ?thesis
      using d lt len unfolding dn_def [symmetric]
      by (auto simp: read_frames_def Let_def dn_def [symmetric] m)
  qed
  have starved: ?thesis if le: "ra \<le> dn"
  proof -
    have "\<not> dn < ra" using le by (simp add: not_less)
    then show ?thesis
      using d(1) le len unfolding dn_def [symmetric]
      by (auto simp: read_frames_def Let_def dn_def [symmetric] std_fill_def)
  qed
  show ?thesis using enough starved by (cases "dn < ra") (auto simp: not_less)
qed

theorem read_frames_spec_witness:
  "wf_buffer (circ_buffer \<lparr>file_channels = 2,
      circ_buffer = \<lparr>buffer = [7, 8, 9, 0::int], read_head = 0, write_head = 3\<rparr>,
      file_io_buffer = [], io_counter = 0\<rparr>) \<and>
   unat ((1::size_t) * word_of_int 2) \<le> length [5, 5::int] \<and>
   read_frames \<lparr>file_channels = 2,
      circ_buffer = \<lparr>buffer = [7, 8, 9, 0::int], read_head = 0, write_head = 3\<rparr>,
      file_io_buffer = [], io_counter = 0\<rparr> False [5, 5] 1
    = Some (\<lparr>file_channels = 2,
      circ_buffer = \<lparr>buffer = [7, 8, 9, 0::int], read_head = 2, write_head = 3\<rparr>,
      file_io_buffer = [], io_counter = 1\<rparr>, [7, 8], False) \<and>
   (\<exists>ra. get_read_available \<lparr>buffer = [7, 8, 9, 0::int], read_head = 0, write_head = 3\<rparr>
            = Some ra \<and> 2 < ra)"
proof -
  let ?p = "\<lparr>file_channels = 2,
      circ_buffer = \<lparr>buffer = [7, 8, 9, 0::int], read_head = 0, write_head = 3\<rparr>,
      file_io_buffer = [], io_counter = 0\<rparr>"
  have h1: "wf_buffer (circ_buffer ?p)" by (simp add: wf_buffer_def capacity_def is_pow2_def)
  have h2: "unat ((1::size_t) * word_of_int (file_channels ?p)) \<le> length [5, 5::int]" by simp
  have g: "get_read_available \<lparr>buffer = [7, 8, 9, 0::int], read_head = 0, write_head = 3\<rparr>
            = Some 3" by code_simp
  have e: "read_frames ?p False [5, 5] 1
    = Some (\<lparr>file_channels = 2,
      circ_buffer = \<lparr>buffer = [7, 8, 9, 0::int], read_head = 2, write_head = 3\<rparr>,
      file_io_buffer = [], io_counter = 1\<rparr>, [7, 8], False)" by code_simp
  from read_frames_spec [OF h1 h2, of False] g
  have "\<exists>ra. get_read_available \<lparr>buffer = [7, 8, 9, 0::int], read_head = 0, write_head = 3\<rparr>
            = Some ra \<and> 2 < ra" by simp
  with h1 h2 e show ?thesis by simp
qed

theorem read_frames_exact_amount_counterexample:
  "get_read_available \<lparr>buffer = [7, 8, 0, 0::int], read_head = 0, write_head = 2\<rparr> = Some 2 \<and>
   (1::size_t) * word_of_int 2 = 2 \<and>
   read_frames \<lparr>file_channels = 2,
      circ_buffer = \<lparr>buffer = [7, 8, 0, 0::int], read_head = 0, write_head = 2\<rparr>,
      file_io_buffer = [], io_counter = 0\<rparr> False [5, 5] 1
    = Some (\<lparr>file_channels = 2,
      circ_buffer = \<lparr>buffer = [7, 8, 0, 0::int], read_head = 0, write_head = 2\<rparr>,
      file_io_buffer = [], io_counter = 1\<rparr>, [0, 0], False)"
  by code_simp

text \<open>
  Claim C4. In every state that a buffer object constructed with a capacity of at least
  2 reaches through calls of \<open>enqueue\<close> and \<open>dequeue\<close>, both availability queries
  return, and their results add up to the capacity minus one (as natural numbers, with
  no wrap-around).
\<close>

theorem available_invariant:
  assumes "2 \<le> capacity (CircularBuffer_new requested :: ('a::zero) CircularBuffer)"
    and "\<forall>op\<in>set ops. op_ok op"
  shows "\<exists>cb ra wa. run_ops (CircularBuffer_new requested :: 'a CircularBuffer) ops = Some cb \<and>
           get_read_available cb = Some ra \<and> get_write_available cb = Some wa \<and>
           unat ra + unat wa = unat (capacity cb) - 1"
proof -
  from run_ops_wf [OF new_wf [OF assms(1)] assms(2)] obtain cb where
    cb: "run_ops (CircularBuffer_new requested :: 'a CircularBuffer) ops = Some cb" "wf_buffer cb"
    by blast
  from available_sum [OF cb(2)] cb(1) show ?thesis by blast
qed

theorem available_invariant_witness:
  "2 \<le> capacity (CircularBuffer_new 10 :: int CircularBuffer) \<and>
   op_ok (Enq [1, 2, 3, 4, 5::int] 5) \<and> op_ok (Deq [0, 0, 0::int] 3) \<and>
   op_ok (Enq [6, 7::int] 2) \<and>
   (\<exists>cb ra wa. run_ops (CircularBuffer_new 10 :: int CircularBuffer)
                  [Enq [1, 2, 3, 4, 5] 5, Deq [0, 0, 0] 3, Enq [6, 7] 2] = Some cb \<and>
      get_read_available cb = Some ra \<and> get_write_available cb = Some wa \<and>
      unat ra + unat wa = unat (capacity cb) - 1)"
proof -
  have h1: "2 \<le> capacity (CircularBuffer_new 10 :: int CircularBuffer)" by code_simp
  have h2: "\<forall>op\<in>set [Enq [1, 2, 3, 4, 5::int] 5, Deq [0, 0, 0] 3, Enq [6, 7] 2]. op_ok op"
    by simp
  have h3: "op_ok (Enq [1, 2, 3, 4, 5::int] 5) \<and> op_ok (Deq [0, 0, 0::int] 3) \<and>
      op_ok (Enq [6, 7::int] 2)"
    by simp
  from available_invariant [OF h1 h2] h1 h3 show ?thesis by blast
qed

text \<open>
  Claim C5, evaluated where it fails. With an empty ring buffer the capture IO loop reads
  the availability three times in a row without waiting in between and is still inside
  the loop: \<^verbatim>\<open>data_ready_.wait(lock)\<close> stands after the loop's closing brace. The
  playback loop, the sibling of this loop, waits after every availability check that
  finds too little room.
\<close>

theorem record_loop_rechecks_without_wait:
  "record_start \<lparr>file_channels = 2, circ_buffer = CircularBuffer_new 16,
      file_io_buffer = [0, 0, 0, 0::int], io_counter = 0\<rparr>
     [\<lparr>rt_calls = [], file_count = 0, file_data = []\<rparr>,
      \<lparr>rt_calls = [], file_count = 0, file_data = []\<rparr>,
      \<lparr>rt_calls = [], file_count = 0, file_data = []\<rparr>]
   = ([Check_Available 0, Check_Available 0, Check_Available 0], Still_Running,
      \<lparr>file_channels = 2, circ_buffer = CircularBuffer_new 16,
      file_io_buffer = [0, 0, 0, 0::int], io_counter = 0\<rparr>) \<and>
   fst (playback_start \<lparr>file_channels = 2,
      circ_buffer = \<lparr>buffer = [7, 8, 9, 0::int], read_head = 0, write_head = 3\<rparr>,
      file_io_buffer = [0, 0, 0, 0::int], io_counter = 0\<rparr>
     [\<lparr>rt_calls = [], file_count = 0, file_data = []\<rparr>,
      \<lparr>rt_calls = [], file_count = 0, file_data = []\<rparr>])
   = [Check_Available 0, Wait_Notified, Check_Available 0, Wait_Notified]"
  by code_simp







text \<open>
  Claim C8. In any run of the capture IO thread, whatever the audio thread and the file
  library do: once a file write transfers fewer frames than requested, the loop is left,
  and the only thing the thread still does is the wait that follows the loop. No further
  availability check, dequeue or write occurs, however many steps the environment still
  offers.
\<close>

theorem record_short_write_terminates:
  assumes "record_start p es = (tr, st, p')"
    and "tr = pre @ File_Write n m # post"
    and "m < n"
  shows "st = Loop_Exited \<and> post = [Wait_Notified]"
proof -
  define bl where "bl = int (length (file_io_buffer p))"
  define fr where "fr = cxx_div bl (file_channels p)"
  have ch: "file_channels p \<noteq> 0"
    using assms(1,2) by (auto simp: record_start_def Let_def)
  obtain tr1 st1 p1 where r: "record_loop bl fr p es = (tr1, st1, p1)"
    by (cases "record_loop bl fr p es") auto
  have rs: "(tr, st, p') = (if st1 = Loop_Exited then (tr1 @ [Wait_Notified], Loop_Exited, p1)
                            else (tr1, st1, p1))"
    using assms(1) ch r
    by (cases st1) (simp_all add: record_start_def Let_def bl_def [symmetric] fr_def [symmetric])
  from record_loop_shape [OF r] show ?thesis
  proof
    assume a: "st1 \<noteq> Loop_Exited \<and> (\<forall>n m. File_Write n m \<in> set tr1 \<longrightarrow> \<not> m < n)"
    with rs have "tr = tr1" by simp
    with assms(2) have "File_Write n m \<in> set tr1" by simp
    with a assms(3) show ?thesis by blast
  next
    assume "st1 = Loop_Exited \<and>
      (\<exists>tr0 m. tr1 = tr0 @ [File_Write fr m] \<and> m < fr \<and>
        (\<forall>n m. File_Write n m \<in> set tr0 \<longrightarrow> \<not> m < n))"
    then obtain tr0 m' where t: "st1 = Loop_Exited" "tr1 = tr0 @ [File_Write fr m']"
      "\<forall>n m. File_Write n m \<in> set tr0 \<longrightarrow> \<not> m < n" by blast
    from rs t have st: "st = Loop_Exited" and tr: "tr = tr0 @ [File_Write fr m', Wait_Notified]"
      by simp_all
    have nin: "File_Write n m \<notin> set tr0" using t(3) assms(3) by blast
    show ?thesis
    proof (cases post rule: rev_cases)
      case Nil
      with assms(2) tr show ?thesis by simp
    next
      case (snoc ys y)
      with assms(2) tr have "(pre @ File_Write n m # ys) @ [y] = (tr0 @ [File_Write fr m']) @ [Wait_Notified]"
        by simp
      then have y: "y = Wait_Notified" and "pre @ File_Write n m # ys = tr0 @ [File_Write fr m']"
        by (simp_all only: append1_eq_conv)
      from snoc_split_unique [OF this(2) nin] have "ys = []" by simp
      with snoc y st show ?thesis by simp
    qed
  qed
qed

theorem record_short_write_terminates_witness:
  "fst (record_start \<lparr>file_channels = 2, circ_buffer = CircularBuffer_new 16,
      file_io_buffer = [0, 0, 0, 0::int], io_counter = 0\<rparr>
     [\<lparr>rt_calls = [(False, [1, 2, 3, 4, 5, 6], 3)], file_count = 2, file_data = []\<rparr>,
      \<lparr>rt_calls = [(False, [1, 2, 3, 4, 5, 6], 3)], file_count = 1, file_data = []\<rparr>,
      \<lparr>rt_calls = [(False, [1, 2, 3, 4, 5, 6], 3)], file_count = 2, file_data = []\<rparr>])
   = [Check_Available 6, Dequeued 4 4, File_Write 2 2, Check_Available 8, Dequeued 4 4]
     @ File_Write 2 1 # [Wait_Notified] \<and>
   (1::int) < 2 \<and>
   fst (snd (record_start \<lparr>file_channels = 2, circ_buffer = CircularBuffer_new 16,
      file_io_buffer = [0, 0, 0, 0::int], io_counter = 0\<rparr>
     [\<lparr>rt_calls = [(False, [1, 2, 3, 4, 5, 6], 3)], file_count = 2, file_data = []\<rparr>,
      \<lparr>rt_calls = [(False, [1, 2, 3, 4, 5, 6], 3)], file_count = 1, file_data = []\<rparr>,
      \<lparr>rt_calls = [(False, [1, 2, 3, 4, 5, 6], 3)], file_count = 2, file_data = []\<rparr>]))
   = Loop_Exited"
proof -
  let ?r = "record_start \<lparr>file_channels = 2, circ_buffer = CircularBuffer_new 16,
      file_io_buffer = [0, 0, 0, 0::int], io_counter = 0\<rparr>
     [\<lparr>rt_calls = [(False, [1, 2, 3, 4, 5, 6], 3)], file_count = 2, file_data = []\<rparr>,
      \<lparr>rt_calls = [(False, [1, 2, 3, 4, 5, 6], 3)], file_count = 1, file_data = []\<rparr>,
      \<lparr>rt_calls = [(False, [1, 2, 3, 4, 5, 6], 3)], file_count = 2, file_data = []\<rparr>]"
  have tr: "fst ?r = [Check_Available 6, Dequeued 4 4, File_Write 2 2, Check_Available 8,
      Dequeued 4 4] @ File_Write 2 1 # [Wait_Notified]"
    by code_simp
  have run: "?r = (fst ?r, fst (snd ?r), snd (snd ?r))" by simp
  have lt: "(1::int) < 2" by simp
  from record_short_write_terminates [OF run tr lt] tr lt show ?thesis by simp
qed



text \<open>
  Claim C10. For a buffer object constructed with any requested capacity for which the
  capacity is at least 2, every sequence of \<open>enqueue\<close> and \<open>dequeue\<close> calls (each given
  an array that holds the requested number of elements) runs without an out-of-range
  access of the storage and without a failed assertion, which is what a result
  \<open>Some\<close> of \<open>run_ops\<close> means, and afterwards both heads are below the capacity, which
  is the size of the storage.
\<close>

theorem run_ops_safe:
  assumes "2 \<le> capacity (CircularBuffer_new requested :: ('a::zero) CircularBuffer)"
    and "\<forall>op\<in>set ops. op_ok op"
  shows "\<exists>cb. run_ops (CircularBuffer_new requested :: 'a CircularBuffer) ops = Some cb \<and>
           length (buffer cb) = unat (capacity cb) \<and>
           capacity cb = capacity (CircularBuffer_new requested :: 'a CircularBuffer) \<and>
           read_head cb < capacity cb \<and> write_head cb < capacity cb"
proof -
  let ?new = "CircularBuffer_new requested :: 'a CircularBuffer"
  from run_ops_wf [OF new_wf [OF assms(1)] assms(2)] obtain cb where
    cb: "run_ops ?new ops = Some cb" "wf_buffer cb" "length (buffer cb) = length (buffer ?new)"
    by blast
  from wf_cap [OF cb(2)] obtain n where "length (buffer cb) = 2 ^ n" "unat (capacity cb) = 2 ^ n"
    by blast
  then have "length (buffer cb) = unat (capacity cb)" by simp
  moreover have "capacity cb = capacity ?new" using cb(3) by (simp add: capacity_def)
  ultimately show ?thesis using cb(1,2) by (auto simp: wf_buffer_def)
qed

theorem run_ops_safe_witness:
  "2 \<le> capacity (CircularBuffer_new 3 :: int CircularBuffer) \<and>
   op_ok (Enq [1, 2, 3::int] 3) \<and> op_ok (Deq [0, 0::int] 2) \<and>
   op_ok (Enq [4, 5, 6::int] 3) \<and> op_ok (Deq [0, 0, 0, 0::int] 4) \<and>
   (\<exists>cb. run_ops (CircularBuffer_new 3 :: int CircularBuffer)
            [Enq [1, 2, 3] 3, Deq [0, 0] 2, Enq [4, 5, 6] 3, Deq [0, 0, 0, 0] 4] = Some cb \<and>
      read_head cb < capacity cb \<and> write_head cb < capacity cb)"
proof -
  have h1: "2 \<le> capacity (CircularBuffer_new 3 :: int CircularBuffer)" by code_simp
  have h2: "\<forall>op\<in>set [Enq [1, 2, 3::int] 3, Deq [0, 0] 2, Enq [4, 5, 6] 3,
      Deq [0, 0, 0, 0] 4]. op_ok op"
    by simp
  have h3: "op_ok (Enq [1, 2, 3::int] 3) \<and> op_ok (Deq [0, 0::int] 2) \<and>
      op_ok (Enq [4, 5, 6::int] 3) \<and> op_ok (Deq [0, 0, 0, 0::int] 4)"
    by simp
  from run_ops_safe [OF h1 h2] h1 h3 show ?thesis by blast
qed

end
